theory Spec2Isabelle
  imports Complex_Main "HOL-Library.Multiset" "HOL-Library.Char_ord" "HOL-Library.Sublist"
begin

section \<open>Python values\<close>

text \<open>
  Python strings are modelled as \<^typ>\<open>string\<close>, Python lists as HOL lists, the entries of
  a read order as \<^typ>\<open>int\<close> (the command line accepts any integer), lengths as
  \<^typ>\<open>nat\<close>. An exception is a value \<open>Inl e\<close> of the result type.
\<close>

datatype error = ZeroDivisionError | IndexError | ValueError

text \<open>
  \<open>xs[i]\<close> on a sequence of length \<open>n\<close>: the position read, counting from the end for a
  negative \<open>i\<close>, or nothing where Python raises IndexError.
\<close>

definition py_pos :: "nat \<Rightarrow> int \<Rightarrow> nat option" where
  "py_pos n i =
     (if 0 \<le> i \<and> i < int n then Some (nat i)
      else if i < 0 \<and> - int n \<le> i then Some (nat (int n + i))
      else None)"

text \<open>\<open>xs[:b]\<close>: a negative bound counts from the end.\<close>

definition py_hasta :: "int \<Rightarrow> 'a list \<Rightarrow> 'a list" where
  "py_hasta b xs = (if 0 \<le> b then take (nat b) xs else take (length xs - nat (- b)) xs)"

text \<open>\<open>crib in plain\<close> on strings: \<open>crib\<close> occurs as a contiguous block of \<open>plain\<close>.\<close>

fun py_in :: "string \<Rightarrow> string \<Rightarrow> bool" where
  "py_in crib [] = (crib = [])"
| "py_in crib (c # cs) = (prefix crib (c # cs) \<or> py_in crib cs)"

text \<open>
  \<open>xs.sort(key=f, reverse=True)\<close>: Python's sort is stable, also when reversed, so elements
  with equal keys keep their order. A stable ascending sort on the negated key does that.
\<close>

definition py_sort_reverse :: "('a \<Rightarrow> real) \<Rightarrow> 'a list \<Rightarrow> 'a list" where
  "py_sort_reverse f xs = sort_key (\<lambda>x. - f x) xs"

section \<open>transposition\_word.py\<close>

subsection \<open>normalizar\_AZ\<close>

text \<open>
  The Unicode tables behind \<open>str.upper\<close>, \<open>unicodedata.normalize('NFD', _)\<close> and
  \<open>unicodedata.category\<close> belong to the Python library, not to this program: they are
  parameters of the model.
\<close>

record unicodedata =
  upper :: "string \<Rightarrow> string"
  normalize_NFD :: "string \<Rightarrow> string"
  category_Mn :: "char \<Rightarrow> bool"

definition es_AZ :: "char \<Rightarrow> bool" where
  "es_AZ ch \<longleftrightarrow> CHR ''A'' \<le> ch \<and> ch \<le> CHR ''Z''"

definition normalizar_AZ :: "unicodedata \<Rightarrow> string \<Rightarrow> string" where
  "normalizar_AZ U s =
     (if s = [] then []
      else
        let s1 = normalize_NFD U (upper U s);
            s2 = map (\<lambda>ch. if ch = CHR 0xD1 then CHR ''N'' else ch) s1;
            s3 = filter (\<lambda>ch. \<not> category_Mn U ch) s2
        in filter es_AZ s3)"

text \<open>
  What the library does on a text of capital letters A to Z: \<open>upper\<close> and NFD leave it as
  it is, and none of its characters is a combining mark.
\<close>

definition respeta_AZ :: "unicodedata \<Rightarrow> bool" where
  "respeta_AZ U \<longleftrightarrow>
     (\<forall>s. list_all es_AZ s \<longrightarrow>
        upper U s = s \<and> normalize_NFD U s = s \<and> list_all (\<lambda>ch. \<not> category_Mn U ch) s)"

text \<open>The library restricted to ASCII text, where NFD changes nothing and no mark occurs.\<close>

definition ascii_upper :: "char \<Rightarrow> char" where
  "ascii_upper ch =
     (if CHR ''a'' \<le> ch \<and> ch \<le> CHR ''z'' then char_of (of_char ch - (32::nat)) else ch)"

definition unicodedata_ascii :: unicodedata where
  "unicodedata_ascii =
     \<lparr>upper = map ascii_upper, normalize_NFD = (\<lambda>s. s), category_Mn = (\<lambda>ch. False)\<rparr>"

subsection \<open>longitudes\_columnas\<close>

text \<open>The loop \<open>for j in range(r): longs[order_read0[j]] += 1\<close>, over the list of its \<open>j\<close>.\<close>

fun alargar_read :: "int list \<Rightarrow> nat list \<Rightarrow> nat list \<Rightarrow> error + nat list" where
  "alargar_read order_read0 [] longs = Inr longs"
| "alargar_read order_read0 (j # js) longs =
     (if j < length order_read0 then
        (case py_pos (length longs) (order_read0 ! j) of
           None \<Rightarrow> Inl IndexError
         | Some p \<Rightarrow> alargar_read order_read0 js (longs[p := longs ! p + 1]))
      else Inl IndexError)"

text \<open>The loop \<open>for j in range(r): longs[j] += 1\<close>; here \<open>r < ncols\<close>, so no read fails.\<close>

fun alargar_natural :: "nat list \<Rightarrow> nat list \<Rightarrow> nat list" where
  "alargar_natural [] longs = longs"
| "alargar_natural (j # js) longs = alargar_natural js (longs[j := longs ! j + 1])"

text \<open>
  \<open>N\<close> and \<open>ncols\<close> are lengths at every call. The rule is a string: \<open>"read"\<close> selects the
  read rule and any other value the natural one.
\<close>

definition longitudes_columnas :: "nat \<Rightarrow> nat \<Rightarrow> int list \<Rightarrow> string \<Rightarrow> error + nat list" where
  "longitudes_columnas N ncols order_read0 long_rule =
     (if ncols = 0 then Inl ZeroDivisionError
      else
        let q = N div ncols; r = N mod ncols; longs = replicate ncols q
        in if r > 0 then
             (if long_rule = ''read'' then alargar_read order_read0 [0..<r] longs
              else Inr (alargar_natural [0..<r] longs))
           else Inr longs)"

subsection \<open>descifrar\_por\_orden\<close>

text \<open>
  The loop over \<open>order0\<close> that cuts the ciphertext: \<open>L = longs[idx]\<close>,
  \<open>cols[idx] = C[cursor:cursor+L]\<close>, \<open>cursor += L\<close>.
\<close>

fun cortar :: "string \<Rightarrow> nat list \<Rightarrow> int list \<Rightarrow> string list \<Rightarrow> nat \<Rightarrow> error + string list" where
  "cortar C longs [] cols cursor = Inr cols"
| "cortar C longs (idx # rest) cols cursor =
     (case py_pos (length longs) idx of
        None \<Rightarrow> Inl IndexError
      | Some p \<Rightarrow>
          (case py_pos (length cols) idx of
             None \<Rightarrow> Inl IndexError
           | Some p' \<Rightarrow>
               cortar C longs rest (cols[p' := take (longs ! p) (drop cursor C)])
                 (cursor + longs ! p)))"

text \<open>\<open>max(len(c) for c in cols)\<close> on a list that is not empty.\<close>

definition max_len :: "'a list list \<Rightarrow> nat" where
  "max_len cols = foldr max (map length cols) 0"

text \<open>
  The two nested loops that read the columns row by row:
  \<open>for r in range(max_rows): for c in range(n): if r < len(cols[c]): out.append(cols[c][r])\<close>.
\<close>

definition por_filas :: "'a list list \<Rightarrow> nat \<Rightarrow> nat \<Rightarrow> 'a list" where
  "por_filas cols max_rows n =
     concat (map (\<lambda>r. concat (map (\<lambda>c. if r < length (cols ! c) then [cols ! c ! r] else [])
                                   [0..<n]))
                 [0..<max_rows])"

definition descifrar_por_orden ::
  "unicodedata \<Rightarrow> string \<Rightarrow> int list \<Rightarrow> string \<Rightarrow> string \<Rightarrow> error + string" where
  "descifrar_por_orden U ciphertext read_order_1based long_rule col_direction =
     (let C = normalizar_AZ U ciphertext;
          n = length read_order_1based;
          order0 = map (\<lambda>i. i - 1) read_order_1based
      in case longitudes_columnas (length C) n order0 long_rule of
           Inl e \<Rightarrow> Inl e
         | Inr longs \<Rightarrow>
             (case cortar C longs order0 (replicate n []) 0 of
                Inl e \<Rightarrow> Inl e
              | Inr cols0 \<Rightarrow>
                  let cols = (if col_direction = ''up'' then map rev cols0 else cols0)
                  in if cols = [] then Inl ValueError
                     else Inr (por_filas cols (max_len cols) n)))"

subsection \<open>cifrar\_por\_orden\_var\<close>

text \<open>The loop \<open>for ch in P: cols[idx].append(ch); idx = (idx + 1) % n\<close>.\<close>

fun repartir :: "string \<Rightarrow> string list \<Rightarrow> nat \<Rightarrow> error + string list" where
  "repartir [] cols idx = Inr cols"
| "repartir (ch # P) cols idx =
     (if idx < length cols then
        repartir P (cols[idx := cols ! idx @ [ch]]) ((idx + 1) mod length cols)
      else Inl IndexError)"

text \<open>The loop \<open>for j in order0: out.extend(cols[j])\<close>.\<close>

fun juntar :: "string list \<Rightarrow> int list \<Rightarrow> string \<Rightarrow> error + string" where
  "juntar cols [] out = Inr out"
| "juntar cols (j # js) out =
     (case py_pos (length cols) j of
        None \<Rightarrow> Inl IndexError
      | Some p \<Rightarrow> juntar cols js (out @ cols ! p))"

definition cifrar_por_orden_var ::
  "unicodedata \<Rightarrow> string \<Rightarrow> int list \<Rightarrow> string \<Rightarrow> error + string" where
  "cifrar_por_orden_var U plaintext read_order_1based col_direction =
     (let P = normalizar_AZ U plaintext;
          n = length read_order_1based;
          order0 = map (\<lambda>i. i - 1) read_order_1based
      in case repartir P (replicate n []) 0 of
           Inl e \<Rightarrow> Inl e
         | Inr cols0 \<Rightarrow>
             juntar (if col_direction = ''up'' then map rev cols0 else cols0) order0 [])"

section \<open>auto\_transpo.py\<close>

subsection \<open>longitudes\_columnas\<close>

definition longitudes_columnas_auto :: "nat \<Rightarrow> nat \<Rightarrow> error + nat list" where
  "longitudes_columnas_auto N n =
     (if n = 0 then Inl ZeroDivisionError
      else let q = N div n; r = N mod n
           in Inr (map (\<lambda>i. q + (if i < r then 1 else 0)) [0..<n]))"

section \<open>Read orders\<close>

text \<open>A read order written from 1: a rearrangement of \<open>1, \<dots>, k\<close> with \<open>k \<ge> 1\<close>.\<close>

definition orden_valido :: "int list \<Rightarrow> bool" where
  "orden_valido order1 \<longleftrightarrow> order1 \<noteq> [] \<and> sort order1 = [1..int (length order1)]"

text \<open>The same order written from 0.\<close>

definition orden0_valido :: "nat \<Rightarrow> int list \<Rightarrow> bool" where
  "orden0_valido k order0 \<longleftrightarrow> sort order0 = map int [0..<k]"

section \<open>transposition\_word.py: the crib search\<close>

subsection \<open>probar\_perm\<close>

text \<open>A solution as the program stores it: \<open>(order1, long_rule, col_dir, plain)\<close>.\<close>

type_synonym solucion = "int list \<times> string \<times> string \<times> string"




subsection \<open>explorar\_permutaciones\<close>








subsection \<open>main: the sweep over the number of columns\<close>



section \<open>auto\_transpo.py: the beam search\<close>

subsection \<open>score\_text\<close>

text \<open>
  Scores are Python floats, modelled as real numbers. The table \<open>TRI\<close> and the default
  \<open>TRI_DEF\<close> are global variables of the module, which \<open>main\<close> may replace: they are
  arguments of the model.
\<close>

text \<open>The loop \<open>for i in range(len(s) - 2)\<close>, over the list of its \<open>i\<close>.\<close>

fun score_bucle :: "(string \<rightharpoonup> real) \<Rightarrow> real \<Rightarrow> string \<Rightarrow> nat list \<Rightarrow> real \<Rightarrow> real" where
  "score_bucle TRI TRI_DEF s [] total' = total'"
| "score_bucle TRI TRI_DEF s (i # rest) total' =
     score_bucle TRI TRI_DEF s rest
       (total' + (case TRI (take 3 (drop i s)) of None \<Rightarrow> TRI_DEF | Some lp \<Rightarrow> lp))"

definition score_text :: "(string \<rightharpoonup> real) \<Rightarrow> real \<Rightarrow> string \<Rightarrow> real" where
  "score_text TRI TRI_DEF s =
     (if length s < 3 then - 1000000000
      else score_bucle TRI TRI_DEF s [0..<length s - 2] 0)"

text \<open>
  The table built by \<open>cargar_trigramas(None)\<close>, the value of \<open>TRI\<close> and \<open>TRI_DEF\<close> when
  the module is loaded: every trigram of capital letters at \<open>-9.0\<close>, eleven common ones at
  \<open>-2.5\<close>, and \<open>-10.5\<close> for anything else.
\<close>

definition comunes :: "string list" where
  "comunes = [''QUE'', ''ENT'', ''LOS'', ''LAS'', ''EST'', ''NTE'', ''CON'', ''PAR'', ''ARA'',
              ''ION'', ''ADO'']"

definition TRI_inicial :: "string \<rightharpoonup> real" where
  "TRI_inicial tri =
     (if tri \<in> set comunes then Some (- 5 / 2)
      else if length tri = 3 \<and> list_all es_AZ tri then Some (- 9)
      else None)"

definition TRI_DEF_inicial :: real where
  "TRI_DEF_inicial = - 21 / 2"

subsection \<open>asignar\_columnas, leer\_por\_filas\<close>

text \<open>The loop of \<open>asignar_columnas\<close> is the one of \<open>descifrar_por_orden\<close>.\<close>

definition asignar_columnas :: "string \<Rightarrow> nat \<Rightarrow> int list \<Rightarrow> error + string list" where
  "asignar_columnas cipher n orden_0 =
     (case longitudes_columnas_auto (length cipher) n of
        Inl e \<Rightarrow> Inl e
      | Inr longs \<Rightarrow> cortar cipher longs orden_0 (replicate n []) 0)"

definition leer_por_filas :: "string list \<Rightarrow> error + string" where
  "leer_por_filas cols =
     (if cols = [] then Inl ValueError
      else Inr (por_filas cols (max_len cols) (length cols)))"

subsection \<open>beam\_search\<close>

text \<open>A hypothesis: \<open>(orden, cols, cursor, punt)\<close>.\<close>

type_synonym estado = "nat list \<times> string list \<times> nat \<times> real"

text \<open>
  The generator \<open>cols2[c][r] for r in range(min_rows) for c in range(n)\<close>, over the list
  of its pairs \<open>(r, c)\<close>: reading past the end of a column raises IndexError.
\<close>

fun leer_celdas :: "string list \<Rightarrow> (nat \<times> nat) list \<Rightarrow> error + string" where
  "leer_celdas cols2 [] = Inr []"
| "leer_celdas cols2 ((r, c) # rest) =
     (if r < length (cols2 ! c) then
        (case leer_celdas cols2 rest of
           Inl e \<Rightarrow> Inl e
         | Inr s \<Rightarrow> Inr (cols2 ! c ! r # s))
      else Inl IndexError)"

text \<open>The body of the loop \<open>for idx in restantes\<close>: the hypothesis extended by \<open>idx\<close>.\<close>

definition extender ::
  "(string \<rightharpoonup> real) \<Rightarrow> real \<Rightarrow> string \<Rightarrow> nat \<Rightarrow> nat list \<Rightarrow> estado \<Rightarrow> nat \<Rightarrow> error + estado" where
  "extender TRI TRI_DEF cipher n longs e idx =
     (case e of (orden, cols, cursor, punt) \<Rightarrow>
        let L = longs ! idx;
            seg = take L (drop cursor cipher);
            cols2 = cols[idx := seg];
            orden2 = orden @ [idx];
            min_rows = min_list (map (\<lambda>i. length (cols2 ! i)) orden2)
        in case leer_celdas cols2 (List.product [0..<min_rows] [0..<n]) of
             Inl err \<Rightarrow> Inl err
           | Inr parcial \<Rightarrow>
               let pscore = score_text TRI TRI_DEF parcial / real (max 1 (length parcial))
               in Inr (orden2, cols2, cursor + L, punt + pscore))"

fun extender_restantes ::
  "(string \<rightharpoonup> real) \<Rightarrow> real \<Rightarrow> string \<Rightarrow> nat \<Rightarrow> nat list \<Rightarrow> estado \<Rightarrow> nat list
     \<Rightarrow> estado list \<Rightarrow> error + estado list" where
  "extender_restantes TRI TRI_DEF cipher n longs e [] nuevos = Inr nuevos"
| "extender_restantes TRI TRI_DEF cipher n longs e (idx # restantes) nuevos =
     (case extender TRI TRI_DEF cipher n longs e idx of
        Inl err \<Rightarrow> Inl err
      | Inr e2 \<Rightarrow> extender_restantes TRI TRI_DEF cipher n longs e restantes (nuevos @ [e2]))"

text \<open>The loop \<open>for orden, cols, cursor, punt in estados\<close> of one step.\<close>

fun extender_estados ::
  "(string \<rightharpoonup> real) \<Rightarrow> real \<Rightarrow> string \<Rightarrow> nat \<Rightarrow> nat list \<Rightarrow> estado list \<Rightarrow> estado list
     \<Rightarrow> error + estado list" where
  "extender_estados TRI TRI_DEF cipher n longs [] nuevos = Inr nuevos"
| "extender_estados TRI TRI_DEF cipher n longs (e # estados) nuevos =
     (case extender_restantes TRI TRI_DEF cipher n longs e
             (filter (\<lambda>i. i \<notin> set (fst e)) [0..<n]) nuevos of
        Inl err \<Rightarrow> Inl err
      | Inr nuevos2 \<Rightarrow> extender_estados TRI TRI_DEF cipher n longs estados nuevos2)"

text \<open>Lines 177 and 178: the sort of \<open>nuevos\<close> and the cut to the beam width.\<close>

definition podar :: "int \<Rightarrow> estado list \<Rightarrow> estado list" where
  "podar beam nuevos = py_hasta beam (py_sort_reverse (\<lambda>x. snd (snd (snd x))) nuevos)"

text \<open>The body of the loop \<open>for paso in range(n)\<close>.\<close>

definition beam_paso ::
  "(string \<rightharpoonup> real) \<Rightarrow> real \<Rightarrow> string \<Rightarrow> nat \<Rightarrow> nat list \<Rightarrow> int \<Rightarrow> estado list
     \<Rightarrow> error + estado list" where
  "beam_paso TRI TRI_DEF cipher n longs beam estados =
     (case extender_estados TRI TRI_DEF cipher n longs estados [] of
        Inl err \<Rightarrow> Inl err
      | Inr nuevos \<Rightarrow> Inr (podar beam nuevos))"

fun beam_pasos ::
  "(string \<rightharpoonup> real) \<Rightarrow> real \<Rightarrow> string \<Rightarrow> nat \<Rightarrow> nat list \<Rightarrow> int \<Rightarrow> nat \<Rightarrow> estado list
     \<Rightarrow> error + estado list" where
  "beam_pasos TRI TRI_DEF cipher n longs beam 0 estados = Inr estados"
| "beam_pasos TRI TRI_DEF cipher n longs beam (Suc pasos) estados =
     (case beam_paso TRI TRI_DEF cipher n longs beam estados of
        Inl err \<Rightarrow> Inl err
      | Inr estados2 \<Rightarrow> beam_pasos TRI TRI_DEF cipher n longs beam pasos estados2)"

text \<open>
  The loop that fills \<open>finales\<close>; dividing by the length of an empty plaintext raises
  ZeroDivisionError.
\<close>

fun puntuar_finales ::
  "(string \<rightharpoonup> real) \<Rightarrow> real \<Rightarrow> estado list \<Rightarrow> (real \<times> nat list \<times> string) list
     \<Rightarrow> error + (real \<times> nat list \<times> string) list" where
  "puntuar_finales TRI TRI_DEF [] finales = Inr finales"
| "puntuar_finales TRI TRI_DEF (e # estados) finales =
     (case leer_por_filas (fst (snd e)) of
        Inl err \<Rightarrow> Inl err
      | Inr plain \<Rightarrow>
          if length plain = 0 then Inl ZeroDivisionError
          else puntuar_finales TRI TRI_DEF estados
                 (finales @ [(score_text TRI TRI_DEF plain / real (length plain), fst e, plain)]))"

text \<open>\<open>n\<close> is a number of columns; \<open>search_n\<close> calls with \<open>n \<ge> 2\<close> only.\<close>

definition beam_search ::
  "(string \<rightharpoonup> real) \<Rightarrow> real \<Rightarrow> string \<Rightarrow> nat \<Rightarrow> int \<Rightarrow> int
     \<Rightarrow> error + (real \<times> nat list \<times> string) list" where
  "beam_search TRI TRI_DEF cipher n beam topk =
     (case longitudes_columnas_auto (length cipher) n of
        Inl err \<Rightarrow> Inl err
      | Inr longs \<Rightarrow>
          (case beam_pasos TRI TRI_DEF cipher n longs beam n [([], replicate n [], 0, 0)] of
             Inl err \<Rightarrow> Inl err
           | Inr estados \<Rightarrow>
               (case puntuar_finales TRI TRI_DEF estados [] of
                  Inl err \<Rightarrow> Inl err
                | Inr finales \<Rightarrow> Inr (py_hasta topk (py_sort_reverse fst finales)))))"

subsection \<open>search\_n\<close>

text \<open>The loop \<open>for n in range(nmin, nmax + 1)\<close>, over the list of its \<open>n\<close>.\<close>

fun search_bucle ::
  "(string \<rightharpoonup> real) \<Rightarrow> real \<Rightarrow> string \<Rightarrow> int \<Rightarrow> int \<Rightarrow> int list
     \<Rightarrow> (real \<times> int \<times> nat list \<times> string) list
     \<Rightarrow> error + (real \<times> int \<times> nat list \<times> string) list" where
  "search_bucle TRI TRI_DEF cipher beam kbest [] candidatos = Inr candidatos"
| "search_bucle TRI TRI_DEF cipher beam kbest (n # ns) candidatos =
     (if n < 2 then search_bucle TRI TRI_DEF cipher beam kbest ns candidatos
      else
        (case longitudes_columnas_auto (length cipher) (nat n) of
           Inl err \<Rightarrow> Inl err
         | Inr longs \<Rightarrow>
             if min_list longs < 3 then search_bucle TRI TRI_DEF cipher beam kbest ns candidatos
             else
               (case beam_search TRI TRI_DEF cipher (nat n) beam kbest of
                  Inl err \<Rightarrow> Inl err
                | Inr res \<Rightarrow>
                    search_bucle TRI TRI_DEF cipher beam kbest ns
                      (candidatos @ map (\<lambda>(sc, orden, plain). (sc, n, orden, plain)) res))))"

definition search_n ::
  "(string \<rightharpoonup> real) \<Rightarrow> real \<Rightarrow> string \<Rightarrow> int \<Rightarrow> int \<Rightarrow> int \<Rightarrow> int
     \<Rightarrow> error + (real \<times> int \<times> nat list \<times> string) list" where
  "search_n TRI TRI_DEF cipher nmin nmax beam kbest =
     (case search_bucle TRI TRI_DEF cipher beam kbest [nmin..nmax] [] of
        Inl err \<Rightarrow> Inl err
      | Inr candidatos \<Rightarrow> Inr (py_hasta kbest (py_sort_reverse fst candidatos)))"

section \<open>Notions used in the statements\<close>

text \<open>The column counts that the sweep does not skip.\<close>

definition n_admitido :: "string \<Rightarrow> int \<Rightarrow> bool" where
  "n_admitido cipher n \<longleftrightarrow> 2 \<le> n \<and> 3 \<le> length cipher div nat n"




text \<open>
  Column \<open>j\<close> of a text written in rows of \<open>n\<close> symbols: the symbols at the positions
  congruent to \<open>j\<close> modulo \<open>n\<close>, in order.
\<close>

definition columna :: "nat \<Rightarrow> 'a list \<Rightarrow> nat \<Rightarrow> 'a list" where
  "columna n P j = map ((!) P) (filter (\<lambda>i. i mod n = j) [0..<length P])"

text \<open>
  What \<open>probar_perm\<close> adds to its solutions for one variant: the decoded plaintext, if it
  contains the crib and its encoding is the normalised ciphertext.
\<close>

definition aceptadas ::
  "unicodedata \<Rightarrow> string \<Rightarrow> int list \<Rightarrow> string \<Rightarrow> string \<Rightarrow> string \<Rightarrow> solucion list" where
  "aceptadas U cipher order1 crib long_rule col_dir =
     (case descifrar_por_orden U cipher order1 long_rule col_dir of
        Inl e \<Rightarrow> []
      | Inr plain \<Rightarrow>
          if py_in crib plain
             \<and> cifrar_por_orden_var U plain order1 col_dir = Inr (normalizar_AZ U cipher)
          then [(order1, long_rule, col_dir, plain)] else [])"



section \<open>Column geometry\<close>

lemma alargar_natural_snoc:
  "alargar_natural (js @ [j]) longs = (let l = alargar_natural js longs in l[j := l ! j + 1])"
  by (induction js arbitrary: longs) simp_all

lemma alargar_natural_upt:
  "r \<le> k \<Longrightarrow> alargar_natural [0..<r] (replicate k q) = map (\<lambda>i. q + (if i < r then 1 else 0)) [0..<k]"
proof (induction r)
  case 0
  show ?case by (simp add: map_replicate_trivial)
next
  case (Suc r)
  then have ih: "alargar_natural [0..<r] (replicate k q) = map (\<lambda>i. q + (if i < r then 1 else 0)) [0..<k]"
    and rk: "r < k" by simp_all
  show ?case
    using rk by (auto simp: alargar_natural_snoc ih Let_def list_eq_iff_nth_eq nth_list_update)
qed

lemma alargar_read_snoc:
  "alargar_read ord (js @ [j]) longs =
     (case alargar_read ord js longs of Inl e \<Rightarrow> Inl e | Inr l \<Rightarrow> alargar_read ord [j] l)"
  by (induction js arbitrary: longs) (simp_all split: option.splits)

lemma orden0_valido_mset: "orden0_valido k ord \<longleftrightarrow> mset ord = mset (map int [0..<k])"
proof
  assume "orden0_valido k ord"
  then have "mset (sort ord) = mset (map int [0..<k])" by (simp add: orden0_valido_def)
  then show "mset ord = mset (map int [0..<k])" by simp
next
  assume h: "mset ord = mset (map int [0..<k])"
  have "sorted (map int [0..<k])" by (simp add: sorted_map strict_sorted_iff sorted_wrt_iff_nth_less)
  then show "orden0_valido k ord" unfolding orden0_valido_def
    by (metis h properties_for_sort)
qed

lemma orden0_valido_props:
  assumes "orden0_valido k ord"
  shows "length ord = k" "distinct ord" "set ord = int ` {0..<k}"
proof -
  from assms have m: "mset ord = mset (map int [0..<k])" by (simp add: orden0_valido_mset)
  from m show "length ord = k" by (metis length_map length_upt mset_eq_length minus_nat.diff_0)
  have "distinct (map int [0..<k])" by (simp add: distinct_map)
  with m show "distinct ord" by (metis mset_eq_imp_distinct_iff)
  from m show "set ord = int ` {0..<k}" by (metis mset_eq_setD set_map set_upt)
qed

lemma alargar_read_upt:
  assumes v: "orden0_valido k ord" and rk: "r \<le> k"
  shows "alargar_read ord [0..<r] (replicate k q) =
           Inr (map (\<lambda>i. q + (if int i \<in> set (take r ord) then 1 else 0)) [0..<k])"
  using rk
proof (induction r)
  case 0
  show ?case by (simp add: map_replicate_trivial)
next
  case (Suc r)
  note p = orden0_valido_props[OF v]
  from Suc have ih: "alargar_read ord [0..<r] (replicate k q) =
           Inr (map (\<lambda>i. q + (if int i \<in> set (take r ord) then 1 else 0)) [0..<k])"
    and rk: "r < k" by simp_all
  from rk p have "ord ! r \<in> int ` {0..<k}" by (metis nth_mem)
  then obtain m where m: "ord ! r = int m" "m < k" by auto
  have notin: "ord ! r \<notin> set (take r ord)"
    using p(1,2) rk by (metis distinct_take id_take_nth_drop distinct_append not_distinct_conv_prefix take_Suc_conv_app_nth append.assoc)
  have tk: "take (Suc r) ord = take r ord @ [ord ! r]"
    using rk p(1) by (simp add: take_Suc_conv_app_nth)
  show ?case
    using rk p(1) m notin
    by (auto simp: alargar_read_snoc ih py_pos_def tk list_eq_iff_nth_eq nth_list_update)
qed

lemma geometria_suma:
  fixes S :: "nat set"
  assumes "S \<subseteq> {0..<k}"
  shows "sum_list (map (\<lambda>i. q + (if i \<in> S then 1 else 0)) [0..<k]) = k * q + card S"
proof -
  have "sum_list (map (\<lambda>i. q + (if i \<in> S then 1 else 0)) [0..<k])
        = (\<Sum>i\<in>{0..<k}. q + (if i \<in> S then 1 else 0))"
    by (simp add: interv_sum_list_conv_sum_set_nat)
  also have "\<dots> = k * q + (\<Sum>i\<in>{0..<k}. if i \<in> S then 1 else 0)"
    by (simp add: sum.distrib)
  also have "(\<Sum>i\<in>{0..<k}. if i \<in> S then 1 else 0) = card ({0..<k} \<inter> S)"
    by (simp add: sum.If_cases)
  also have "{0..<k} \<inter> S = S" using assms by auto
  finally show ?thesis .
qed

lemma geometria_largas:
  fixes S :: "nat set" and q :: nat
  assumes "S \<subseteq> {0..<k}"
  shows "length (filter (\<lambda>L. L = q + 1) (map (\<lambda>i. q + (if i \<in> S then 1 else 0)) [0..<k])) = card S"
proof -
  let ?xs = "map (\<lambda>i. q + (if i \<in> S then 1 else 0)) [0..<k]"
  have "{i. i < length ?xs \<and> ?xs ! i = q + 1} = S" using assms by (auto split: if_splits)
  then show ?thesis
    unfolding length_filter_conv_card by simp
qed

lemma card_take_orden:
  assumes v: "orden0_valido k ord" and rk: "r \<le> k"
  shows "card {i. int i \<in> set (take r ord)} = r" "{i. int i \<in> set (take r ord)} \<subseteq> {0..<k}"
proof -
  note p = orden0_valido_props[OF v]
  have sub: "set (take r ord) \<subseteq> int ` {0..<k}" using p(3) by (metis set_take_subset)
  then show "{i. int i \<in> set (take r ord)} \<subseteq> {0..<k}" by auto
  have "int ` {i. int i \<in> set (take r ord)} = set (take r ord)" using sub by auto
  then have "card (int ` {i. int i \<in> set (take r ord)}) = r"
    using p(1,2) rk by (simp add: distinct_card)
  then show "card {i. int i \<in> set (take r ord)} = r"
    by (simp add: card_image)
qed

lemma longitudes_columnas_natural:
  assumes "0 < k" "rule \<noteq> ''read''"
  shows "longitudes_columnas N k ord rule =
           Inr (map (\<lambda>i. N div k + (if i < N mod k then 1 else 0)) [0..<k])"
  using assms
  by (auto simp: longitudes_columnas_def Let_def alargar_natural_upt map_replicate_trivial)

lemma longitudes_columnas_read:
  assumes "0 < k" "orden0_valido k ord"
  shows "longitudes_columnas N k ord ''read'' =
           Inr (map (\<lambda>i. N div k + (if int i \<in> set (take (N mod k) ord) then 1 else 0)) [0..<k])"
  using assms
  by (auto simp: longitudes_columnas_def Let_def alargar_read_upt map_replicate_trivial)

text \<open>
  C3. For every length \<open>N\<close>, every number of columns \<open>k \<ge> 1\<close> and either rule (with a valid
  read order where the read rule consults it), \<open>longitudes_columnas\<close> returns \<open>k\<close> lengths
  that sum to \<open>N\<close>; exactly \<open>N mod k\<close> of them are \<open>N div k + 1\<close> and the other
  \<open>k - N mod k\<close> are \<open>N div k\<close>. Under the natural rule the longer columns are the
  columns \<open>0, \<dots>, N mod k - 1\<close>, under the read rule the first \<open>N mod k\<close> columns of the
  read order. The function of the same name in auto\_transpo.py is the natural rule.
  \<open>N = 30, k = 5\<close> gives \<open>[6,6,6,6,6]\<close> and \<open>N = 32, k = 5\<close> gives \<open>[7,7,6,6,6]\<close>.
\<close>

theorem longitudes_columnas_geometria:
  assumes k: "1 \<le> k" and v: "rule = ''read'' \<longrightarrow> orden0_valido k order0"
  shows "(\<exists>longs. longitudes_columnas N k order0 rule = Inr longs
            \<and> length longs = k
            \<and> sum_list longs = N
            \<and> length (filter (\<lambda>L. L = N div k + 1) longs) = N mod k
            \<and> length (filter (\<lambda>L. L = N div k) longs) = k - N mod k
            \<and> (\<forall>i<k. longs ! i = N div k + 1 \<longleftrightarrow>
                  (if rule = ''read'' then int i \<in> set (take (N mod k) order0)
                   else i < N mod k)))
       \<and> longitudes_columnas_auto N k = longitudes_columnas N k order0 ''natural''
       \<and> longitudes_columnas 30 5 order0 ''natural'' = Inr [6, 6, 6, 6, 6]
       \<and> longitudes_columnas 32 5 order0 ''natural'' = Inr [7, 7, 6, 6, 6]"
proof -
  define S where "S = (if rule = ''read'' then {i. int i \<in> set (take (N mod k) order0)} else {i. i < N mod k})"
  define longs where "longs = map (\<lambda>i. N div k + (if i \<in> S then 1 else 0)) [0..<k]"
  have rk: "N mod k < k" using k by simp
  have eq: "longitudes_columnas N k order0 rule = Inr longs"
    using k v longitudes_columnas_natural[of k rule N order0] longitudes_columnas_read[of k order0 N]
    by (auto simp: longs_def S_def)
  have S: "S \<subseteq> {0..<k}" "card S = N mod k"
    using v rk card_take_orden[of k order0 "N mod k"] by (auto simp: S_def)
  have len: "length longs = k" by (simp add: longs_def)
  have sum: "sum_list longs = N"
    unfolding longs_def using geometria_suma[OF S(1), of "N div k"] S(2) by simp
  have c1: "length (filter (\<lambda>L. L = N div k + 1) longs) = N mod k"
    unfolding longs_def using geometria_largas[OF S(1), of "N div k"] S(2) by simp
  have "length (filter (\<lambda>L. L = N div k) longs) + length (filter (\<lambda>L. L = N div k + 1) longs) = k"
  proof -
    have "filter (\<lambda>L. L = N div k) longs = filter (\<lambda>L. \<not> L = N div k + 1) longs"
      by (rule filter_cong) (auto simp: longs_def)
    then show ?thesis using sum_length_filter_compl[of "\<lambda>L. L = N div k + 1" longs] len by simp
  qed
  with c1 have c0: "length (filter (\<lambda>L. L = N div k) longs) = k - N mod k" by simp
  have nth: "\<forall>i<k. longs ! i = N div k + 1 \<longleftrightarrow>
                  (if rule = ''read'' then int i \<in> set (take (N mod k) order0) else i < N mod k)"
    by (auto simp: longs_def S_def)
  have auto_eq: "longitudes_columnas_auto N k = longitudes_columnas N k order0 ''natural''"
    using k by (simp add: longitudes_columnas_natural longitudes_columnas_auto_def Let_def)
  have s1: "longitudes_columnas 30 5 order0 ''natural'' = Inr [6, 6, 6, 6, 6]"
    by (simp add: longitudes_columnas_natural upt_rec)
  have s2: "longitudes_columnas 32 5 order0 ''natural'' = Inr [7, 7, 6, 6, 6]"
    by (simp add: longitudes_columnas_natural upt_rec)
  from eq len sum c1 c0 nth auto_eq s1 s2 show ?thesis by blast
qed

theorem longitudes_columnas_geometria_witness:
  "(1::nat) \<le> 3 \<and> orden0_valido 3 [2, 0, 1]
   \<and> (\<exists>longs. longitudes_columnas 7 3 [2, 0, 1] ''read'' = Inr longs
            \<and> length longs = 3 \<and> sum_list longs = 7
            \<and> length (filter (\<lambda>L. L = 3) longs) = 1
            \<and> longs ! 2 = 3)"
proof -
  have v: "''read'' = ''read'' \<longrightarrow> orden0_valido 3 [2, 0, 1]"
    by (simp add: orden0_valido_def upt_rec)
  from longitudes_columnas_geometria[OF _ v, of 7] v show ?thesis
    by auto
qed

section \<open>Scoring\<close>

lemma score_bucle_suma:
  "score_bucle TRI TRI_DEF s js t =
     t + sum_list (map (\<lambda>i. case TRI (take 3 (drop i s)) of None \<Rightarrow> TRI_DEF | Some lp \<Rightarrow> lp) js)"
  by (induction js arbitrary: t) (simp_all add: add.assoc)

text \<open>
  C7. On a string of fewer than 3 symbols \<open>score_text\<close> returns the sentinel
  \<open>-1e9\<close>. On a string of length \<open>L \<ge> 3\<close> it returns the sum, over the \<open>L - 2\<close> windows
  \<open>s[i:i+3]\<close>, each of 3 symbols, of the value of the table at the window, or of the
  default where the table has no entry.
\<close>

theorem score_text_suma:
  "(length s < 3 \<longrightarrow> score_text TRI TRI_DEF s = - 1000000000)
   \<and> (3 \<le> length s \<longrightarrow>
        score_text TRI TRI_DEF s =
          (\<Sum>i = 0..<length s - 2.
             case TRI (take 3 (drop i s)) of None \<Rightarrow> TRI_DEF | Some lp \<Rightarrow> lp)
        \<and> (\<forall>i<length s - 2. length (take 3 (drop i s)) = 3))"
proof (intro conjI impI)
  assume "length s < 3"
  then show "score_text TRI TRI_DEF s = - 1000000000" by (simp add: score_text_def)
next
  assume "3 \<le> length s"
  then show "score_text TRI TRI_DEF s =
          (\<Sum>i = 0..<length s - 2.
             case TRI (take 3 (drop i s)) of None \<Rightarrow> TRI_DEF | Some lp \<Rightarrow> lp)"
    by (simp add: score_text_def score_bucle_suma interv_sum_list_conv_sum_set_nat)
next
  assume "3 \<le> length s"
  then show "\<forall>i<length s - 2. length (take 3 (drop i s)) = 3" by auto
qed

theorem score_text_suma_witness:
  "length ''AB'' < 3 \<and> score_text TRI_inicial TRI_DEF_inicial ''AB'' = - 1000000000
   \<and> 3 \<le> length ''QUE1'' \<and> score_text TRI_inicial TRI_DEF_inicial ''QUE1'' = - 13"
proof -
  have a: "TRI_inicial ''QUE'' = Some (- 5 / 2)" "TRI_inicial ''UE1'' = None"
    by (simp_all add: TRI_inicial_def comunes_def es_AZ_def)
  have s: "{0..<2::nat} = {0, 1}" by auto
  from score_text_suma[of "''AB''" TRI_inicial TRI_DEF_inicial]
       score_text_suma[of "''QUE1''" TRI_inicial TRI_DEF_inicial]
  show ?thesis by (simp add: a s TRI_DEF_inicial_def)
qed

section \<open>Beam search\<close>

subsection \<open>The partial evaluation reads columns not yet assigned\<close>

lemma leer_celdas_sin_asignar:
  assumes "1 \<le> min_rows" "2 \<le> n" "cols2 ! 0 \<noteq> []" "cols2 ! 1 = []"
  shows "leer_celdas cols2 (List.product [0..<min_rows] [0..<n]) = Inl IndexError"
proof -
  from assms(1) obtain rs where rs: "[0..<min_rows] = 0 # rs"
    by (metis One_nat_def Suc_le_lessD upt_conv_Cons)
  from assms(2) obtain cs where cs: "[0..<n] = 0 # 1 # cs"
    by (metis One_nat_def Suc_1 Suc_le_lessD less_Suc_eq_le less_imp_le_nat upt_conv_Cons upt_rec zero_less_one)
  show ?thesis using assms(3,4) by (simp add: rs cs)
qed

lemma extender_primera_columna:
  assumes "2 \<le> n" "longs ! 0 \<ge> 1" "cipher \<noteq> []"
  shows "extender TRI TRI_DEF cipher n longs ([], replicate n [], 0, punt) 0 = Inl IndexError"
proof -
  let ?seg = "take (longs ! 0) cipher"
  let ?cols2 = "(replicate n [])[0 := ?seg]"
  have seg: "?seg \<noteq> []" using assms(2,3) by (cases cipher) (auto simp: take_Cons')
  have c0: "?cols2 ! 0 = ?seg" using assms(1) by simp
  have c1: "?cols2 ! 1 = []" using assms(1) by simp
  have "leer_celdas ?cols2 (List.product [0..<length ?seg] [0..<n]) = Inl IndexError"
    by (rule leer_celdas_sin_asignar) (use seg c0 c1 assms(1) in \<open>simp_all add: Suc_le_eq\<close>)
  then show ?thesis using c0 by (simp add: extender_def Let_def)
qed

lemma beam_paso_inicial:
  assumes "2 \<le> n" "longs ! 0 \<ge> 1" "cipher \<noteq> []"
  shows "beam_paso TRI TRI_DEF cipher n longs beam [([], replicate n [], 0, 0)] = Inl IndexError"
proof -
  from assms(1) obtain cs where cs: "[0..<n] = 0 # cs"
    by (metis less_eq_nat.simps(1) not_numeral_le_zero upt_conv_Cons le_neq_implies_less)
  show ?thesis
    using extender_primera_columna[OF assms, of TRI TRI_DEF 0]
    by (simp add: beam_paso_def cs)
qed

lemma beam_search_sin_asignar:
  assumes "2 \<le> n" "cipher \<noteq> []"
  shows "beam_search TRI TRI_DEF cipher n beam topk = Inl IndexError"
proof -
  let ?longs = "map (\<lambda>i. length cipher div n + (if i < length cipher mod n then 1 else 0)) [0..<n]"
  have l: "longitudes_columnas_auto (length cipher) n = Inr ?longs"
    using assms(1) by (simp add: longitudes_columnas_auto_def Let_def)
  have N: "0 < length cipher" using assms(2) by simp
  have "1 \<le> length cipher div n + (if 0 < length cipher mod n then 1 else 0)"
  proof (cases "0 < length cipher mod n")
    case True then show ?thesis by simp
  next
    case False
    then have "n dvd length cipher" by auto
    then have "n \<le> length cipher" using N by (simp add: dvd_imp_le)
    then have "1 \<le> length cipher div n" using assms(1)
      by (metis div_greater_zero_iff less_eq_Suc_le One_nat_def not_numeral_le_zero not_gr_zero)
    then show ?thesis by simp
  qed
  then have l0: "?longs ! 0 \<ge> 1" using assms(1) by simp
  obtain m where m: "n = Suc m" using assms(1) by (cases n) auto
  have "beam_pasos TRI TRI_DEF cipher n ?longs beam n [([], replicate n [], 0, 0)] = Inl IndexError"
    using beam_paso_inicial[OF assms(1) l0 assms(2), of TRI TRI_DEF beam]
    by (subst (3) m) simp
  then show ?thesis by (simp add: beam_search_def l)
qed

text \<open>
  C5. With two columns or more and a ciphertext that is not empty, the first extension of
  the first step of \<open>beam_search\<close> reads row 0 of a column that has no segment yet, and the
  search raises IndexError: it returns no top result to compare with an exhaustive scorer.
\<close>

theorem beam_search_IndexError:
  assumes "2 \<le> n" "cipher \<noteq> []"
  shows "beam_search TRI TRI_DEF cipher n beam topk = Inl IndexError"
  using assms by (rule beam_search_sin_asignar)

theorem beam_search_IndexError_witness:
  "(2::nat) \<le> 2 \<and> ''ABCDEF'' \<noteq> []
   \<and> beam_search TRI_inicial TRI_DEF_inicial ''ABCDEF'' 2 2 1 = Inl IndexError"
  using beam_search_IndexError[of 2 "''ABCDEF''" TRI_inicial TRI_DEF_inicial 2 1] by simp

subsection \<open>The sweep over the number of columns\<close>

lemma min_list_Min: "xs \<noteq> [] \<Longrightarrow> min_list xs = Min (set xs)"
  by (induction xs rule: min_list.induct) (auto simp: min_def split: list.splits)

lemma min_longitudes_auto:
  assumes "0 < n"
  shows "min_list (map (\<lambda>i. N div n + (if i < N mod n then 1 else 0)) [0..<n]) = N div n"
proof -
  let ?xs = "map (\<lambda>i. N div n + (if i < N mod n then 1 else 0)) [0..<n]"
  have ne: "?xs \<noteq> []" using assms by simp
  have "N mod n < n" using assms by simp
  then have "\<not> (n - 1 < N mod n)" by simp
  then have "?xs ! (n - 1) = N div n" using assms by simp
  then have mem: "N div n \<in> set ?xs" using assms
    by (metis diff_less length_map length_upt minus_nat.diff_0 nth_mem zero_less_one)
  have "Min (set ?xs) = N div n"
    by (rule Min_eqI) (use mem in auto)
  then show ?thesis using ne by (simp add: min_list_Min del: set_map)
qed

lemma search_bucle_filter:
  "search_bucle TRI TRI_DEF cipher beam kbest ns candidatos =
     search_bucle TRI TRI_DEF cipher beam kbest (filter (n_admitido cipher) ns) candidatos"
proof (induction ns arbitrary: candidatos)
  case Nil
  show ?case by simp
next
  case (Cons n ns)
  show ?case
  proof (cases "n < 2")
    case True
    then show ?thesis using Cons by (simp add: n_admitido_def)
  next
    case False
    then have n: "0 < nat n" by simp
    show ?thesis
      using False Cons n
      by (simp add: n_admitido_def longitudes_columnas_auto_def Let_def min_longitudes_auto
               split: sum.splits)
  qed
qed

lemma ne_set_vacio: "x \<in> set xs \<Longrightarrow> xs \<noteq> []"
  by (cases xs) simp_all

lemma search_bucle_IndexError:
  assumes "ns \<noteq> []" "\<forall>n\<in>set ns. n_admitido cipher n"
  shows "search_bucle TRI TRI_DEF cipher beam kbest ns candidatos = Inl IndexError"
proof -
  from assms obtain n rest where ns: "ns = n # rest" and a: "n_admitido cipher n"
    by (cases ns) auto
  from a have "2 \<le> n" and d: "3 \<le> length cipher div nat n"
    by (simp_all add: n_admitido_def)
  then have n2: "2 \<le> nat n" by linarith
  from d have ne: "cipher \<noteq> []" by auto
  have l: "longitudes_columnas_auto (length cipher) (nat n)
           = Inr (map (\<lambda>i. length cipher div nat n + (if i < length cipher mod nat n then 1 else 0))
                      [0..<nat n])"
    using n2 by (simp add: longitudes_columnas_auto_def Let_def)
  have m: "\<not> min_list (map (\<lambda>i. length cipher div nat n + (if i < length cipher mod nat n then 1 else 0))
                      [0..<nat n]) < 3"
    using n2 d by (simp add: min_longitudes_auto)
  have n': "\<not> n < 2" using n2 by simp
  show ?thesis
    unfolding ns search_bucle.simps l sum.case
    using n' m by (simp add: beam_search_sin_asignar[OF n2 ne])
qed

text \<open>
  With the defect of the partial evaluation, a sweep that admits some \<open>n\<close> raises
  IndexError at the first of them.
\<close>

lemma search_n_IndexError:
  assumes "n \<in> {nmin..nmax}" "n_admitido cipher n"
  shows "search_n TRI TRI_DEF cipher nmin nmax beam kbest = Inl IndexError"
proof -
  let ?ns = "filter (n_admitido cipher) [nmin..nmax]"
  from assms have "n \<in> set ?ns" by simp
  then have "?ns \<noteq> []" by (rule ne_set_vacio)
  then have "search_bucle TRI TRI_DEF cipher beam kbest ?ns [] = Inl IndexError"
    by (rule search_bucle_IndexError) simp
  then show ?thesis
    unfolding search_n_def by (subst search_bucle_filter) simp
qed

text \<open>
  C9. In the sweep of \<open>search_n\<close> every \<open>n\<close> of \<open>[nmin, nmax]\<close> with \<open>n < 2\<close> or with a
  shortest column below 3 is skipped and the sweep goes on: the sweep is the sweep over the
  other \<open>n\<close>. If every \<open>n\<close> of the range is skipped, \<open>search_n\<close> returns the empty list and
  raises nothing.
\<close>

theorem search_n_omite:
  "search_n TRI TRI_DEF cipher nmin nmax beam kbest =
     (case search_bucle TRI TRI_DEF cipher beam kbest
             (filter (\<lambda>n. \<not> (n < 2 \<or> length cipher div nat n < 3)) [nmin..nmax]) [] of
        Inl err \<Rightarrow> Inl err
      | Inr candidatos \<Rightarrow> Inr (py_hasta kbest (py_sort_reverse fst candidatos)))
   \<and> ((\<forall>n\<in>{nmin..nmax}. n < 2 \<or> length cipher div nat n < 3) \<longrightarrow>
        search_n TRI TRI_DEF cipher nmin nmax beam kbest = Inr [])"
proof -
  have f: "filter (\<lambda>n. \<not> (n < 2 \<or> length cipher div nat n < 3)) [nmin..nmax]
           = filter (n_admitido cipher) [nmin..nmax]"
    by (rule filter_cong) (auto simp: n_admitido_def)
  have a: "search_n TRI TRI_DEF cipher nmin nmax beam kbest =
     (case search_bucle TRI TRI_DEF cipher beam kbest
             (filter (\<lambda>n. \<not> (n < 2 \<or> length cipher div nat n < 3)) [nmin..nmax]) [] of
        Inl err \<Rightarrow> Inl err
      | Inr candidatos \<Rightarrow> Inr (py_hasta kbest (py_sort_reverse fst candidatos)))"
    unfolding search_n_def f by (subst search_bucle_filter) (rule refl)
  have b: "search_n TRI TRI_DEF cipher nmin nmax beam kbest = Inr []"
    if "\<forall>n\<in>{nmin..nmax}. n < 2 \<or> length cipher div nat n < 3"
  proof -
    from that have "filter (\<lambda>n. \<not> (n < 2 \<or> length cipher div nat n < 3)) [nmin..nmax] = []"
      by (auto simp: filter_empty_conv)
    then show ?thesis unfolding a by (simp add: py_hasta_def py_sort_reverse_def)
  qed
  from a b show ?thesis by blast
qed

theorem search_n_omite_witness:
  "list_all (\<lambda>n. n < 2 \<or> length ''ABCDE'' div nat n < 3) [0..3::int]
   \<and> search_n TRI_inicial TRI_DEF_inicial ''ABCDE'' 0 3 200 5 = Inr []"
proof -
  have s: "{0..3::int} = {0, 1, 2, 3}" by auto
  have h: "\<forall>n\<in>{0..3::int}. n < 2 \<or> length ''ABCDE'' div nat n < 3"
    unfolding s by simp
  then have "list_all (\<lambda>n. n < 2 \<or> length ''ABCDE'' div nat n < 3) [0..3::int]"
    by (simp add: list_all_iff)
  with h search_n_omite[of TRI_inicial TRI_DEF_inicial "''ABCDE''" 0 3 200 5]
  show ?thesis by blast
qed

subsection \<open>Pruning\<close>





section \<open>Permutation generation\<close>



















section \<open>Valid read orders\<close>

lemma sorted_upto_int: "sorted [i..j::int]"
  by (simp add: sorted_wrt_iff_nth_less)

lemma orden_valido_mset:
  "orden_valido order1 \<longleftrightarrow> order1 \<noteq> [] \<and> mset order1 = mset [1..int (length order1)]"
proof -
  have "sort order1 = [1..int (length order1)] \<longleftrightarrow> mset order1 = mset [1..int (length order1)]"
  proof
    assume "sort order1 = [1..int (length order1)]"
    then have "mset (sort order1) = mset [1..int (length order1)]" by simp
    then show "mset order1 = mset [1..int (length order1)]" by simp
  next
    assume a: "mset order1 = mset [1..int (length order1)]"
    show "sort order1 = [1..int (length order1)]"
      by (rule properties_for_sort[OF a[symmetric] sorted_upto_int])
  qed
  then show ?thesis by (simp add: orden_valido_def)
qed

lemma orden_valido_orden0:
  assumes "orden_valido order1"
  shows "orden0_valido (length order1) (map (\<lambda>i. i - 1) order1)"
proof -
  let ?k = "length order1"
  from assms have "mset order1 = mset [1..int ?k]" by (simp add: orden_valido_mset)
  then have "mset (map (\<lambda>i. i - 1) order1) = mset (map (\<lambda>i. i - 1) [1..int ?k])" by simp
  also have "map (\<lambda>i. i - 1) [1..int ?k] = map int [0..<?k]"
    by (rule nth_equalityI) simp_all
  finally show ?thesis by (simp add: orden0_valido_mset del: mset_map)
qed

lemma orden_valido_pos: "orden_valido order1 \<Longrightarrow> 0 < length order1"
  by (simp add: orden_valido_def)

lemma py_pos_rango: "0 \<le> i \<Longrightarrow> i < int n \<Longrightarrow> py_pos n i = Some (nat i)"
  by (simp add: py_pos_def)

section \<open>Cutting the ciphertext into columns\<close>

lemma cortar_length:
  "cortar C longs ord cols cursor = Inr cols2 \<Longrightarrow> length cols2 = length cols"
  by (induction ord arbitrary: cols cursor) (auto split: option.splits)

lemma cortar_ok:
  assumes "\<forall>idx\<in>set ord. 0 \<le> idx \<and> idx < int n" "length longs = n" "length cols = n"
  shows "\<exists>cols2. cortar C longs ord cols cursor = Inr cols2"
  using assms
proof (induction ord arbitrary: cols cursor)
  case Nil
  show ?case by simp
next
  case (Cons idx ord)
  then show ?case by (simp add: py_pos_rango)
qed

lemma mset_concat_update:
  assumes "p < length cols" "cols ! p = []"
  shows "mset (concat (cols[p := seg])) = mset (concat cols) + mset seg"
proof -
  have c: "cols = take p cols @ [] # drop (Suc p) cols"
    using assms by (metis id_take_nth_drop)
  have "cols[p := seg] = take p cols @ seg # drop (Suc p) cols"
    using assms(1) by (simp add: upd_conv_take_nth_drop)
  then have "mset (concat (cols[p := seg]))
             = mset (concat (take p cols)) + mset seg + mset (concat (drop (Suc p) cols))"
    by simp
  moreover have "mset (concat cols) = mset (concat (take p cols)) + mset (concat (drop (Suc p) cols))"
    by (subst c) simp
  ultimately show ?thesis by simp
qed

lemma cortar_mset:
  assumes "cortar C longs ord cols cursor = Inr cols2"
    and "\<forall>idx\<in>set ord. 0 \<le> idx \<and> idx < int n" "distinct ord"
    and "length longs = n" "length cols = n"
    and "\<forall>idx\<in>set ord. cols ! nat idx = []"
  shows "mset (concat cols2) =
           mset (concat cols) + mset (take (sum_list (map (\<lambda>idx. longs ! nat idx) ord)) (drop cursor C))"
  using assms
proof (induction ord arbitrary: cols cursor)
  case Nil
  then show ?case by simp
next
  case (Cons idx ord)
  let ?p = "nat idx"
  let ?L = "longs ! ?p"
  let ?seg = "take ?L (drop cursor C)"
  let ?cols1 = "cols[?p := ?seg]"
  from Cons.prems have r: "0 \<le> idx" "idx < int n" by simp_all
  then have p: "?p < n" by simp
  from Cons.prems r have c: "cortar C longs ord ?cols1 (cursor + ?L) = Inr cols2"
    by (simp add: py_pos_rango)
  have vac: "\<forall>i\<in>set ord. ?cols1 ! nat i = []"
  proof
    fix i assume i: "i \<in> set ord"
    with Cons.prems have "i \<noteq> idx" "0 \<le> i" by auto
    with r have "nat i \<noteq> ?p" by simp
    with Cons.prems i show "?cols1 ! nat i = []" by simp
  qed
  have "mset (concat cols2) =
          mset (concat ?cols1) + mset (take (sum_list (map (\<lambda>i. longs ! nat i) ord)) (drop (cursor + ?L) C))"
    by (rule Cons.IH[OF c]) (use Cons.prems vac in simp_all)
  moreover have "mset (concat ?cols1) = mset (concat cols) + mset ?seg"
    by (rule mset_concat_update) (use Cons.prems p in simp_all)
  moreover have "take (?L + sum_list (map (\<lambda>i. longs ! nat i) ord)) (drop cursor C)
                 = ?seg @ take (sum_list (map (\<lambda>i. longs ! nat i) ord)) (drop (cursor + ?L) C)"
    by (simp add: take_add add.commute)
  ultimately show ?case by simp
qed

lemma suma_por_orden:
  fixes longs :: "nat list"
  assumes "orden0_valido n ord" "length longs = n"
  shows "sum_list (map (\<lambda>idx. longs ! nat idx) ord) = sum_list longs"
proof -
  let ?f = "\<lambda>idx. longs ! nat idx"
  from assms(1) have "mset ord = mset (map int [0..<n])" by (simp add: orden0_valido_mset)
  then have "image_mset ?f (mset ord) = image_mset ?f (mset (map int [0..<n]))" by (rule arg_cong)
  then have "mset (map ?f ord) = mset (map ?f (map int [0..<n]))" by (simp only: mset_map)
  also have "map ?f (map int [0..<n]) = longs"
    using assms(2) map_nth[of longs] by (simp add: comp_def)
  finally have e: "mset (map ?f ord) = mset longs" .
  have "sum_list (map ?f ord) = sum_mset (mset (map ?f ord))" by (simp only: sum_mset_sum_list)
  also have "\<dots> = sum_mset (mset longs)" by (simp only: e)
  also have "\<dots> = sum_list longs" by (simp only: sum_mset_sum_list)
  finally show ?thesis .
qed

section \<open>Reading row by row\<close>

lemma por_filas_map:
  "por_filas cols M (length cols) =
     concat (map (\<lambda>r. concat (map (\<lambda>col. if r < length col then [col ! r] else []) cols)) [0..<M])"
proof -
  have "map (\<lambda>c. if r < length (cols ! c) then [cols ! c ! r] else []) [0..<length cols]
        = map (\<lambda>col. if r < length col then [col ! r] else []) cols" for r
    by (rule nth_equalityI) simp_all
  then show ?thesis by (simp add: por_filas_def)
qed

lemma mset_concat_map_append:
  "mset (concat (map (\<lambda>r. a r @ b r) rs)) = mset (concat (map a rs)) + mset (concat (map b rs))"
  by (induction rs) simp_all

lemma columna_entera:
  assumes "length col \<le> M"
  shows "concat (map (\<lambda>r. if r < length col then [col ! r] else []) [0..<M]) = col"
proof -
  from assms have "[0..<M] = [0..<length col] @ [length col..<M]"
    by (metis le_add_diff_inverse upt_add_eq_append zero_le)
  moreover have "concat (map (\<lambda>r. if r < length col then [col ! r] else []) [0..<length col]) = col"
  proof -
    have "map (\<lambda>r. if r < length col then [col ! r] else []) [0..<length col]
          = map (\<lambda>r. [col ! r]) [0..<length col]" by simp
    then have "concat (map (\<lambda>r. if r < length col then [col ! r] else []) [0..<length col])
          = map (\<lambda>r. col ! r) [0..<length col]"
      by (simp add: concat_map_singleton del: map_eq_conv)
    then show ?thesis by (simp add: map_nth)
  qed
  moreover have "concat (map (\<lambda>r. if r < length col then [col ! r] else []) [length col..<M]) = []"
    by simp
  ultimately show ?thesis by simp
qed

lemma max_len_ge: "col \<in> set cols \<Longrightarrow> length col \<le> max_len cols"
  by (induction cols) (auto simp: max_len_def)

lemma por_filas_mset_aux:
  assumes "\<forall>col\<in>set cols. length col \<le> M"
  shows "mset (concat (map (\<lambda>r. concat (map (\<lambda>col. if r < length col then [col ! r] else []) cols)) [0..<M]))
         = mset (concat cols)"
  using assms
proof (induction cols)
  case Nil
  show ?case by simp
next
  case (Cons col cols)
  have "mset (concat (map (\<lambda>r. concat (map (\<lambda>col. if r < length col then [col ! r] else []) (col # cols))) [0..<M]))
        = mset (concat (map (\<lambda>r. (if r < length col then [col ! r] else [])
                                  @ concat (map (\<lambda>col. if r < length col then [col ! r] else []) cols)) [0..<M]))"
    by simp
  also have "\<dots> = mset (concat (map (\<lambda>r. if r < length col then [col ! r] else []) [0..<M]))
                  + mset (concat (map (\<lambda>r. concat (map (\<lambda>col. if r < length col then [col ! r] else []) cols)) [0..<M]))"
    by (rule mset_concat_map_append)
  also have "\<dots> = mset col + mset (concat cols)"
    using Cons by (simp add: columna_entera)
  finally show ?case by simp
qed

lemma por_filas_mset: "mset (por_filas cols (max_len cols) (length cols)) = mset (concat cols)"
  unfolding por_filas_map by (rule por_filas_mset_aux) (simp add: max_len_ge)

lemma longitudes_columnas_total:
  assumes "0 < k" and "rule = ''read'' \<longrightarrow> orden0_valido k ord"
  shows "\<exists>longs. longitudes_columnas N k ord rule = Inr longs \<and> length longs = k \<and> sum_list longs = N"
proof (cases "rule = ''read''")
  case True
  with assms have v: "orden0_valido k ord" by simp
  have rk: "N mod k \<le> k" using assms(1) by (simp add: less_imp_le)
  from card_take_orden[OF v rk]
  have "sum_list (map (\<lambda>i. N div k + (if i \<in> {i. int i \<in> set (take (N mod k) ord)} then 1 else 0)) [0..<k]) = k * (N div k) + N mod k"
    by (simp only: geometria_suma)
  then show ?thesis
    using True by (simp add: longitudes_columnas_read[OF assms(1) v])
next
  case False
  have "{i. i < N mod k} \<subseteq> {0..<k}" using assms(1)
    by (auto intro: less_trans[OF _ mod_less_divisor])
  then have "sum_list (map (\<lambda>i. N div k + (if i \<in> {i. i < N mod k} then 1 else 0)) [0..<k]) = k * (N div k) + card {i. i < N mod k}"
    by (rule geometria_suma)
  then show ?thesis
    by (simp add: longitudes_columnas_natural[OF assms(1) False])
qed

lemma mset_concat_map_rev: "mset (concat (map rev cols)) = mset (concat cols)"
  by (induction cols) simp_all

lemma orden0_rango:
  assumes "orden0_valido n ord"
  shows "\<forall>idx\<in>set ord. 0 \<le> idx \<and> idx < int n"
  using orden0_valido_props(3)[OF assms] by auto

lemma cortar_reordena:
  assumes v: "orden0_valido n ord" and l: "length longs = n" and s: "sum_list longs = length C"
  shows "\<exists>cols. cortar C longs ord (replicate n []) 0 = Inr cols \<and> length cols = n
               \<and> mset (concat cols) = mset C"
proof -
  note r = orden0_rango[OF v]
  from cortar_ok[OF r l, of "replicate n []" C 0]
  obtain cols where c: "cortar C longs ord (replicate n []) 0 = Inr cols" by auto
  have len: "length cols = n" using cortar_length[OF c] by simp
  have "mset (concat cols) = mset (concat (replicate n ([]::string)))
          + mset (take (sum_list (map (\<lambda>idx. longs ! nat idx) ord)) (drop 0 C))"
    by (rule cortar_mset[OF c r orden0_valido_props(2)[OF v] l]) (use r in auto)
  also have "concat (replicate n ([]::string)) = []" by (induction n) simp_all
  finally have "mset (concat cols) = mset C"
    by (simp add: suma_por_orden[OF v l] s)
  with c len show ?thesis by blast
qed

lemma descifrar_mset:
  assumes "orden_valido order1"
  shows "\<exists>plain. descifrar_por_orden U ciphertext order1 long_rule col_direction = Inr plain
            \<and> mset plain = mset (normalizar_AZ U ciphertext)"
proof -
  let ?n = "length order1"
  let ?ord = "map (\<lambda>i. i - 1) order1"
  let ?C = "normalizar_AZ U ciphertext"
  have n: "0 < ?n" by (rule orden_valido_pos[OF assms])
  have v: "orden0_valido ?n ?ord" by (rule orden_valido_orden0[OF assms])
  from longitudes_columnas_total[OF n, of long_rule ?ord "length ?C"] v
  obtain longs where lg: "longitudes_columnas (length ?C) ?n ?ord long_rule = Inr longs"
    "length longs = ?n" "sum_list longs = length ?C" by auto
  from cortar_reordena[OF v lg(2,3)]
  obtain cols0 where c: "cortar ?C longs ?ord (replicate ?n []) 0 = Inr cols0"
    "length cols0 = ?n" "mset (concat cols0) = mset ?C" by auto
  define cols where "cols = (if col_direction = ''up'' then map rev cols0 else cols0)"
  have cl: "length cols = ?n" using c(2) by (simp add: cols_def)
  then have ne: "cols \<noteq> []" using n by auto
  have cm: "mset (concat cols) = mset ?C" using c(3) by (simp add: cols_def mset_concat_map_rev)
  have d: "descifrar_por_orden U ciphertext order1 long_rule col_direction
           = Inr (por_filas cols (max_len cols) (length cols))"
    using ne cl by (simp add: descifrar_por_orden_def Let_def lg(1) c(1) cols_def[symmetric])
  have m: "mset (por_filas cols (max_len cols) (length cols)) = mset ?C"
    by (simp only: por_filas_mset cm)
  with d show ?thesis by simp
qed

lemma asignar_mset:
  assumes "orden_valido order1"
  shows "\<exists>cols plain. asignar_columnas cipher (length order1) (map (\<lambda>i. i - 1) order1) = Inr cols
            \<and> leer_por_filas cols = Inr plain
            \<and> mset plain = mset cipher"
proof -
  let ?n = "length order1"
  let ?ord = "map (\<lambda>i. i - 1) order1"
  have n: "0 < ?n" by (rule orden_valido_pos[OF assms])
  have v: "orden0_valido ?n ?ord" by (rule orden_valido_orden0[OF assms])
  from longitudes_columnas_total[OF n, of "''natural''" ?ord "length cipher"]
  obtain longs where lg: "longitudes_columnas (length cipher) ?n ?ord ''natural'' = Inr longs"
    "length longs = ?n" "sum_list longs = length cipher" by auto
  have la: "longitudes_columnas_auto (length cipher) ?n = Inr longs"
    using n lg(1) by (simp add: longitudes_columnas_natural longitudes_columnas_auto_def Let_def)
  from cortar_reordena[OF v lg(2,3)]
  obtain cols where c: "cortar cipher longs ?ord (replicate ?n []) 0 = Inr cols"
    "length cols = ?n" "mset (concat cols) = mset cipher" by auto
  have ne: "cols \<noteq> []" using n c(2) by auto
  have a: "asignar_columnas cipher ?n ?ord = Inr cols"
    by (simp add: asignar_columnas_def la c(1))
  have m: "mset (por_filas cols (max_len cols) (length cols)) = mset cipher"
    by (simp only: por_filas_mset c(3))
  with a ne show ?thesis by (simp add: leer_por_filas_def)
qed

text \<open>
  C10. For every ciphertext, every valid read order and every variant, \<open>descifrar_por_orden\<close>
  returns a rearrangement of the normalised ciphertext: same symbols with the same
  multiplicities, same length. So does the direct decoding of auto\_transpo.py,
  \<open>asignar_columnas\<close> followed by \<open>leer_por_filas\<close>, on the ciphertext it is given.
\<close>

theorem descifrar_reordena:
  assumes "orden_valido order1"
  shows "(\<exists>plain. descifrar_por_orden U ciphertext order1 long_rule col_direction = Inr plain
            \<and> mset plain = mset (normalizar_AZ U ciphertext)
            \<and> length plain = length (normalizar_AZ U ciphertext))
       \<and> (\<exists>cols plain. asignar_columnas cipher (length order1) (map (\<lambda>i. i - 1) order1) = Inr cols
            \<and> leer_por_filas cols = Inr plain
            \<and> mset plain = mset cipher
            \<and> length plain = length cipher)"
proof
  from descifrar_mset[OF assms, of U ciphertext long_rule col_direction]
  obtain plain where p: "descifrar_por_orden U ciphertext order1 long_rule col_direction = Inr plain"
    "mset plain = mset (normalizar_AZ U ciphertext)" by blast
  from p(2) have "length plain = length (normalizar_AZ U ciphertext)" by (rule mset_eq_length)
  with p show "\<exists>plain. descifrar_por_orden U ciphertext order1 long_rule col_direction = Inr plain
            \<and> mset plain = mset (normalizar_AZ U ciphertext)
            \<and> length plain = length (normalizar_AZ U ciphertext)" by blast
next
  from asignar_mset[OF assms, of cipher]
  obtain cols plain where p: "asignar_columnas cipher (length order1) (map (\<lambda>i. i - 1) order1) = Inr cols"
    "leer_por_filas cols = Inr plain" "mset plain = mset cipher" by blast
  from p(3) have "length plain = length cipher" by (rule mset_eq_length)
  with p show "\<exists>cols plain. asignar_columnas cipher (length order1) (map (\<lambda>i. i - 1) order1) = Inr cols
            \<and> leer_por_filas cols = Inr plain
            \<and> mset plain = mset cipher
            \<and> length plain = length cipher" by blast
qed

theorem descifrar_reordena_witness:
  "orden_valido [3, 1, 2]
   \<and> descifrar_por_orden unicodedata_ascii ''hola, mundo'' [3, 1, 2] ''read'' ''up'' = Inr ''UOLMDOANH''
   \<and> normalizar_AZ unicodedata_ascii ''hola, mundo'' = ''HOLAMUNDO''
   \<and> (\<exists>plain. descifrar_por_orden unicodedata_ascii ''hola, mundo'' [3, 1, 2] ''read'' ''up'' = Inr plain
         \<and> mset plain = mset (normalizar_AZ unicodedata_ascii ''hola, mundo'')
         \<and> length plain = length (normalizar_AZ unicodedata_ascii ''hola, mundo''))
   \<and> (\<exists>cols plain. asignar_columnas ''HOLAMUNDO'' (length [3, 1, 2::int]) (map (\<lambda>i. i - 1) [3, 1, 2]) = Inr cols
         \<and> leer_por_filas cols = Inr plain
         \<and> mset plain = mset ''HOLAMUNDO''
         \<and> length plain = length ''HOLAMUNDO'')"
proof -
  have v: "orden_valido [3, 1, 2]" by (simp add: orden_valido_def upto_rec1)
  have d: "descifrar_por_orden unicodedata_ascii ''hola, mundo'' [3, 1, 2] ''read'' ''up'' = Inr ''UOLMDOANH''"
    by code_simp
  have e: "normalizar_AZ unicodedata_ascii ''hola, mundo'' = ''HOLAMUNDO''"
    by code_simp
  from descifrar_reordena[OF v, of unicodedata_ascii "''hola, mundo''" "''read''" "''up''" "''HOLAMUNDO''"] v d e
  show ?thesis by blast
qed

section \<open>Writing the plaintext into columns\<close>

lemma columna_Nil: "columna n [] j = []"
  by (simp add: columna_def)

lemma columna_snoc:
  "columna n (pre @ [ch]) j = columna n pre j @ (if length pre mod n = j then [ch] else [])"
proof -
  have "map ((!) (pre @ [ch])) (filter (\<lambda>i. i mod n = j) [0..<length pre])
        = map ((!) pre) (filter (\<lambda>i. i mod n = j) [0..<length pre])"
    by (rule map_cong[OF refl]) (simp add: nth_append)
  then show ?thesis by (simp add: columna_def)
qed

lemma repartir_columnas:
  assumes "0 < n"
  shows "repartir suf (map (columna n pre) [0..<n]) (length pre mod n)
         = Inr (map (columna n (pre @ suf)) [0..<n])"
proof (induction suf arbitrary: pre)
  case Nil
  show ?case by simp
next
  case (Cons ch suf)
  let ?idx = "length pre mod n"
  have idx: "?idx < n" using assms by simp
  have upd: "(map (columna n pre) [0..<n])[?idx := map (columna n pre) [0..<n] ! ?idx @ [ch]]
             = map (columna n (pre @ [ch])) [0..<n]"
    by (rule nth_equalityI) (use idx in \<open>auto simp: columna_snoc nth_list_update\<close>)
  have nxt: "(?idx + 1) mod n = length (pre @ [ch]) mod n"
    by (simp add: mod_Suc_eq)
  have "repartir (ch # suf) (map (columna n pre) [0..<n]) ?idx
        = repartir suf (map (columna n (pre @ [ch])) [0..<n]) (length (pre @ [ch]) mod n)"
    using idx by (simp only: repartir.simps length_map length_upt minus_nat.diff_0 if_True upd nxt)
  also have "\<dots> = Inr (map (columna n ((pre @ [ch]) @ suf)) [0..<n])"
    by (rule Cons.IH)
  finally show ?case by simp
qed

lemma repartir_inicial:
  assumes "0 < n"
  shows "repartir P (replicate n []) 0 = Inr (map (columna n P) [0..<n])"
proof -
  have "map (columna n ([]::string)) [0..<n] = replicate n []"
    by (rule nth_equalityI) (simp_all add: columna_Nil)
  with repartir_columnas[OF assms, of P "[]"] show ?thesis by simp
qed

lemma posiciones_columna:
  assumes "j < n"
  shows "filter (\<lambda>i. i mod n = j) [0..<N]
         = map (\<lambda>m. m * n + j) [0..<N div n + (if j < N mod n then 1 else 0)]"
proof (induction N)
  case 0
  show ?case by simp
next
  case (Suc N)
  have n: "0 < n" using assms by simp
  have dm: "N div n * n + N mod n = N" by simp
  show ?case
  proof (cases "N mod n = j")
    case True
    have cnt: "Suc N div n + (if j < Suc N mod n then 1 else 0) = Suc (N div n)"
      using True assms by (auto simp: mod_Suc div_Suc)
    have old: "N div n + (if j < N mod n then 1 else 0) = N div n" using True by simp
    have "N div n * n + j = N" using True dm by simp
    then show ?thesis
      using True Suc by (simp only: cnt old upt_Suc_append) simp
  next
    case False
    have cnt: "Suc N div n + (if j < Suc N mod n then 1 else 0)
               = N div n + (if j < N mod n then 1 else 0)"
      using False assms n by (auto simp: mod_Suc div_Suc)
    show ?thesis using False Suc by (simp add: cnt)
  qed
qed

lemma length_columna:
  assumes "j < n"
  shows "length (columna n P j) = length P div n + (if j < length P mod n then 1 else 0)"
  by (simp add: columna_def posiciones_columna[OF assms])

lemma nth_columna:
  assumes "j < n" "r < length (columna n P j)"
  shows "columna n P j ! r = P ! (r * n + j)"
proof -
  from assms(2) have r: "r < length P div n + (if j < length P mod n then 1 else 0)"
    by (simp add: length_columna[OF assms(1)])
  show ?thesis
    unfolding columna_def posiciones_columna[OF assms(1)] using r by simp
qed

lemma en_columna_iff:
  assumes "j < n"
  shows "r < length (columna n P j) \<longleftrightarrow> r * n + j < length P"
proof -
  let ?cnt = "length P div n + (if j < length P mod n then 1 else 0)"
  have n: "0 < n" using assms by simp
  have s: "set (filter (\<lambda>i. i mod n = j) [0..<length P]) = (\<lambda>m. m * n + j) ` {0..<?cnt}"
    by (simp only: posiciones_columna[OF assms] set_map set_upt)
  have md: "(r * n + j) mod n = j" using assms by simp
  show ?thesis
  proof
    assume "r < length (columna n P j)"
    then have "r \<in> {0..<?cnt}" by (simp add: length_columna[OF assms])
    then have "r * n + j \<in> set (filter (\<lambda>i. i mod n = j) [0..<length P])"
      unfolding s by (rule imageI)
    then show "r * n + j < length P" by simp
  next
    assume "r * n + j < length P"
    then have "r * n + j \<in> set (filter (\<lambda>i. i mod n = j) [0..<length P])"
      using md by simp
    then obtain m where m: "m \<in> {0..<?cnt}" "r * n + j = m * n + j" unfolding s by auto
    from m(2) n have "m = r" by simp
    with m(1) show "r < length (columna n P j)" by (simp add: length_columna[OF assms])
  qed
qed

lemma set_columna: "set (columna n P j) \<subseteq> set P"
  by (auto simp: columna_def)

section \<open>Reading the columns of a text row by row gives the text\<close>

lemma fila_tramo:
  "concat (map (\<lambda>c. if a + c < length P then [P ! (a + c)] else []) [0..<n]) = take n (drop a P)"
proof (induction n)
  case 0
  show ?case by simp
next
  case (Suc n)
  show ?case
  proof (cases "a + n < length P")
    case True
    then have "n < length (drop a P)" by simp
    then have "take (Suc n) (drop a P) = take n (drop a P) @ [drop a P ! n]"
      by (rule take_Suc_conv_app_nth)
    then show ?thesis using True Suc by simp
  next
    case False
    then show ?thesis using Suc by simp
  qed
qed

lemma filas_tramo:
  "concat (map (\<lambda>r. take n (drop (r * n) P)) [0..<M]) = take (M * n) P"
proof (induction M)
  case 0
  show ?case by simp
next
  case (Suc M)
  have "take (M * n + n) P = take (M * n) P @ take n (drop (M * n) P)"
    by (rule take_add)
  then show ?case using Suc by (simp add: add.commute)
qed

lemma por_filas_columnas:
  assumes "0 < n" and "length P \<le> M * n"
  shows "por_filas (map (columna n P) [0..<n]) M n = P"
proof -
  have fila: "concat (map (\<lambda>c. if r < length (map (columna n P) [0..<n] ! c)
                                  then [map (columna n P) [0..<n] ! c ! r] else []) [0..<n])
              = take n (drop (r * n) P)" for r
  proof -
    have "map (\<lambda>c. if r < length (map (columna n P) [0..<n] ! c)
                     then [map (columna n P) [0..<n] ! c ! r] else []) [0..<n]
          = map (\<lambda>c. if r * n + c < length P then [P ! (r * n + c)] else []) [0..<n]"
      by (rule map_cong[OF refl]) (auto simp: en_columna_iff nth_columna)
    then show ?thesis by (simp only: fila_tramo)
  qed
  have "por_filas (map (columna n P) [0..<n]) M n = concat (map (\<lambda>r. take n (drop (r * n) P)) [0..<M])"
    unfolding por_filas_def by (simp only: fila)
  also have "\<dots> = take (M * n) P" by (rule filas_tramo)
  also have "\<dots> = P" using assms(2) by simp
  finally show ?thesis .
qed

lemma max_len_columnas:
  assumes "0 < n"
  shows "length P \<le> max_len (map (columna n P) [0..<n]) * n"
proof -
  let ?cols = "map (columna n P) [0..<n]"
  have "columna n P 0 \<in> set ?cols" using assms by auto
  then have "length (columna n P 0) \<le> max_len ?cols" by (rule max_len_ge)
  then have a: "length (columna n P 0) * n \<le> max_len ?cols * n" by simp
  have "length P \<le> length (columna n P 0) * n"
  proof (cases "0 < length P mod n")
    case True
    have "length P < Suc (length P div n) * n"
      using assms by (metis dividend_less_div_times mult.commute mult_Suc add.commute)
    then show ?thesis using True by (simp add: length_columna[OF assms])
  next
    case False
    then have "length P div n * n = length P" by auto
    then show ?thesis using False by (simp add: length_columna[OF assms])
  qed
  from this a show ?thesis by (rule order_trans)
qed

section \<open>Texts of capital letters\<close>

lemma normalizar_AZ_fijo:
  assumes "respeta_AZ U" "list_all es_AZ s"
  shows "normalizar_AZ U s = s"
proof (cases "s = []")
  case True
  then show ?thesis by (simp add: normalizar_AZ_def)
next
  case False
  from assms have u: "upper U s = s" "normalize_NFD U s = s"
    and mn: "list_all (\<lambda>ch. \<not> category_Mn U ch) s"
    unfolding respeta_AZ_def by blast+
  have "CHR 0xD1 \<notin> set s"
  proof
    assume "CHR 0xD1 \<in> set s"
    with assms(2) have "es_AZ (CHR 0xD1)" by (simp add: list_all_iff)
    then show False by (simp add: es_AZ_def less_eq_char_def)
  qed
  then have r: "map (\<lambda>ch. if ch = CHR 0xD1 then CHR ''N'' else ch) s = s"
    by (induction s) auto
  have f1: "filter (\<lambda>ch. \<not> category_Mn U ch) s = s"
    using mn by (simp add: list_all_iff)
  have f2: "filter es_AZ s = s" using assms(2) by (simp add: list_all_iff)
  show ?thesis using False by (simp only: normalizar_AZ_def Let_def u r f1 f2 if_False)
qed

lemma ascii_upper_AZ: "es_AZ ch \<Longrightarrow> ascii_upper ch = ch"
  by (auto simp: es_AZ_def ascii_upper_def less_eq_char_def)

lemma respeta_AZ_ascii: "respeta_AZ unicodedata_ascii"
  unfolding respeta_AZ_def unicodedata_ascii_def
  by (auto simp: list_all_iff ascii_upper_AZ intro: map_idI)

section \<open>Joining the columns in read order\<close>

lemma juntar_ok:
  assumes "\<forall>idx\<in>set js. 0 \<le> idx \<and> idx < int (length cols)"
  shows "juntar cols js out = Inr (out @ concat (map (\<lambda>i. cols ! nat i) js))"
  using assms by (induction js arbitrary: out) (simp_all add: py_pos_rango)

section \<open>Cutting a ciphertext made of known columns\<close>

lemma cortar_exacto:
  assumes "length E = n" "length longs = n" "\<forall>j<n. longs ! j = length (E ! j)"
    and "\<forall>idx\<in>set todo. 0 \<le> idx \<and> idx < int n" "length cols = n"
    and "drop cursor C = concat (map (\<lambda>i. E ! nat i) todo) @ post"
  shows "\<exists>cols2. cortar C longs todo cols cursor = Inr cols2 \<and> length cols2 = n
           \<and> (\<forall>j<n. cols2 ! j = (if int j \<in> set todo then E ! j else cols ! j))"
  using assms(4-6)
proof (induction todo arbitrary: cols cursor)
  case Nil
  then show ?case by simp
next
  case (Cons idx todo)
  let ?p = "nat idx"
  from Cons.prems have r: "0 \<le> idx" "idx < int n" by simp_all
  then have p: "?p < n" by simp
  have L: "longs ! ?p = length (E ! ?p)" using assms(3) p by simp
  from Cons.prems(3) have d: "drop cursor C = E ! ?p @ concat (map (\<lambda>i. E ! nat i) todo) @ post"
    by simp
  then have seg: "take (longs ! ?p) (drop cursor C) = E ! ?p" by (simp add: L)
  have "drop (cursor + longs ! ?p) C = drop (length (E ! ?p)) (drop cursor C)"
    by (simp add: L add.commute)
  also have "\<dots> = concat (map (\<lambda>i. E ! nat i) todo) @ post" by (simp add: d)
  finally have d2: "drop (cursor + longs ! ?p) C = concat (map (\<lambda>i. E ! nat i) todo) @ post" .
  let ?cols1 = "cols[?p := E ! ?p]"
  have "\<exists>cols2. cortar C longs todo ?cols1 (cursor + longs ! ?p) = Inr cols2 \<and> length cols2 = n
           \<and> (\<forall>j<n. cols2 ! j = (if int j \<in> set todo then E ! j else ?cols1 ! j))"
    by (rule Cons.IH) (use Cons.prems d2 in simp_all)
  then obtain cols2 where c2: "cortar C longs todo ?cols1 (cursor + longs ! ?p) = Inr cols2"
    "length cols2 = n" "\<forall>j<n. cols2 ! j = (if int j \<in> set todo then E ! j else ?cols1 ! j)"
    by blast
  have step: "cortar C longs (idx # todo) cols cursor = cortar C longs todo ?cols1 (cursor + longs ! ?p)"
    using r Cons.prems(2) by (simp add: py_pos_rango assms(2) seg)
  have "\<forall>j<n. cols2 ! j = (if int j \<in> set (idx # todo) then E ! j else cols ! j)"
  proof (intro allI impI)
    fix j assume j: "j < n"
    show "cols2 ! j = (if int j \<in> set (idx # todo) then E ! j else cols ! j)"
    proof (cases "j = ?p")
      case True
      then show ?thesis using c2(3) j r Cons.prems(2) by simp
    next
      case False
      then have "int j \<noteq> idx" using r by auto
      then show ?thesis using c2(3) j False by simp
    qed
  qed
  with c2(1,2) step show ?case by simp
qed

lemma cortar_columnas:
  assumes "orden0_valido n ord" "length E = n"
  shows "cortar (concat (map (\<lambda>i. E ! nat i) ord)) (map length E) ord (replicate n []) 0 = Inr E"
proof -
  note r = orden0_rango[OF assms(1)]
  have "\<exists>cols2. cortar (concat (map (\<lambda>i. E ! nat i) ord)) (map length E) ord (replicate n []) 0 = Inr cols2
          \<and> length cols2 = n
          \<and> (\<forall>j<n. cols2 ! j = (if int j \<in> set ord then E ! j else replicate n [] ! j))"
    by (rule cortar_exacto[where post = "[]"]) (use assms(2) r in simp_all)
  then obtain cols2 where c: "cortar (concat (map (\<lambda>i. E ! nat i) ord)) (map length E) ord (replicate n []) 0 = Inr cols2"
    "length cols2 = n" "\<forall>j<n. cols2 ! j = (if int j \<in> set ord then E ! j else replicate n [] ! j)"
    by blast
  have "cols2 = E"
  proof (rule nth_equalityI)
    show "length cols2 = length E" using c(2) assms(2) by simp
    fix j assume "j < length cols2"
    then have j: "j < n" using c(2) by simp
    then have "int j \<in> set ord" using orden0_valido_props(3)[OF assms(1)] by auto
    with c(3) j show "cols2 ! j = E ! j" by simp
  qed
  with c(1) show ?thesis by simp
qed

section \<open>Encoding\<close>

text \<open>The columns of the encoder, after the reversal that the direction asks for.\<close>

lemma cifrar_forma:
  assumes "orden_valido order1"
  shows "cifrar_por_orden_var U plaintext order1 col_direction =
           Inr (concat (map (\<lambda>i. (if col_direction = ''up''
                                     then map rev (map (columna (length order1) (normalizar_AZ U plaintext)) [0..<length order1])
                                     else map (columna (length order1) (normalizar_AZ U plaintext)) [0..<length order1]) ! nat i)
                            (map (\<lambda>i. i - 1) order1)))"
proof -
  let ?n = "length order1"
  have n: "0 < ?n" by (rule orden_valido_pos[OF assms])
  note r = orden0_rango[OF orden_valido_orden0[OF assms]]
  show ?thesis
    unfolding cifrar_por_orden_var_def Let_def
    by (simp only: repartir_inicial[OF n] sum.case) (subst juntar_ok; use r in \<open>simp split: if_splits\<close>)
qed

section \<open>Round trip\<close>

lemma suma_longitudes_naturales:
  assumes "0 < n"
  shows "sum_list (map (\<lambda>i. N div n + (if i < N mod n then 1 else 0)) [0..<n]) = N"
proof -
  from longitudes_columnas_total[OF assms, of "''natural''" "[]" N]
  obtain longs where "longitudes_columnas N n [] ''natural'' = Inr longs" "sum_list longs = N"
    by auto
  then show ?thesis by (simp add: longitudes_columnas_natural[OF assms])
qed

lemma longitudes_elegidas:
  "\<forall>i\<in>set js. nat i < length E \<Longrightarrow>
     map length (map (\<lambda>i. E ! nat i) js) = map (\<lambda>idx. map length E ! nat idx) js"
  by (induction js) simp_all

lemma cifrar_descifrar_columnas:
  assumes v: "orden_valido order1"
    and az: "respeta_AZ U" "list_all es_AZ P"
    and g: "rule = ''read'' \<longrightarrow>
              set (take (length P mod length order1) order1) = {1..int (length P mod length order1)}"
  shows "\<exists>C. cifrar_por_orden_var U P order1 dir = Inr C
            \<and> list_all es_AZ C \<and> length C = length P
            \<and> descifrar_por_orden U C order1 rule dir = Inr P"
proof -
  let ?n = "length order1"
  let ?N = "length P"
  let ?ord = "map (\<lambda>i. i - 1) order1"
  let ?cols = "map (columna ?n P) [0..<?n]"
  let ?E = "if dir = ''up'' then map rev ?cols else ?cols"
  let ?C = "concat (map (\<lambda>i. ?E ! nat i) ?ord)"
  let ?cnt = "\<lambda>i. ?N div ?n + (if i < ?N mod ?n then 1 else 0)"
  have n: "0 < ?n" by (rule orden_valido_pos[OF v])
  have v0: "orden0_valido ?n ?ord" by (rule orden_valido_orden0[OF v])
  note r = orden0_rango[OF v0]
  have nP: "normalizar_AZ U P = P" by (rule normalizar_AZ_fijo[OF az])
  have enc: "cifrar_por_orden_var U P order1 dir = Inr ?C"
    by (simp only: cifrar_forma[OF v] nP)
  have lenE: "length ?E = ?n" by simp
  have mlc: "map length ?cols = map ?cnt [0..<?n]"
    unfolding map_map comp_def by (rule map_cong[OF refl]) (simp add: length_columna)
  have "map length (map rev ?cols) = map length ?cols"
    unfolding map_map comp_def by simp
  with mlc have mlE: "map length ?E = map ?cnt [0..<?n]"
    by (cases "dir = ''up''") simp_all
  have sub: "set ?C \<subseteq> set P"
  proof
    fix x assume "x \<in> set ?C"
    then obtain i where i: "i \<in> set ?ord" "x \<in> set (?E ! nat i)" by auto
    from r i(1) have "nat i < ?n" by auto
    with i(2) have "x \<in> set (columna ?n P (nat i))" by (simp split: if_splits)
    then show "x \<in> set P" using set_columna[of ?n P "nat i"] by (rule subsetD[rotated])
  qed
  then have azC: "list_all es_AZ ?C" using az(2) unfolding list_all_iff by blast
  have nC: "normalizar_AZ U ?C = ?C" by (rule normalizar_AZ_fijo[OF az(1) azC])
  have lenC: "length ?C = ?N"
  proof -
    have "\<forall>i\<in>set ?ord. nat i < length ?E" using r lenE by auto
    then have "map length (map (\<lambda>i. ?E ! nat i) ?ord) = map (\<lambda>idx. map length ?E ! nat idx) ?ord"
      by (rule longitudes_elegidas)
    then have "length ?C = sum_list (map (\<lambda>idx. map length ?E ! nat idx) ?ord)"
      by (simp only: length_concat)
    also have "\<dots> = sum_list (map length ?E)"
      by (rule suma_por_orden[OF v0]) simp
    also have "\<dots> = ?N" by (simp only: mlE suma_longitudes_naturales[OF n])
    finally show ?thesis .
  qed
  have geo: "longitudes_columnas ?N ?n ?ord rule = Inr (map length ?E)"
  proof (cases "rule = ''read''")
    case False
    then show ?thesis by (simp only: longitudes_columnas_natural[OF n False] mlE)
  next
    case True
    with g have tk: "set (take (?N mod ?n) order1) = {1..int (?N mod ?n)}" by simp
    have "set (take (?N mod ?n) ?ord) = (\<lambda>i. i - 1) ` {1..int (?N mod ?n)}"
      by (simp only: take_map set_map tk)
    then have mem: "int i \<in> set (take (?N mod ?n) ?ord) \<longleftrightarrow> i < ?N mod ?n" for i
      by (auto simp: image_iff)
    have "map (\<lambda>i. ?N div ?n + (if int i \<in> set (take (?N mod ?n) ?ord) then 1 else 0)) [0..<?n]
          = map ?cnt [0..<?n]"
      by (rule map_cong[OF refl]) (simp only: mem)
    then show ?thesis
      unfolding True by (simp only: longitudes_columnas_read[OF n v0] mlE)
  qed
  have cut: "cortar ?C (map length ?E) ?ord (replicate ?n []) 0 = Inr ?E"
    by (rule cortar_columnas[OF v0 lenE])
  have vuelta: "(if dir = ''up'' then map rev ?E else ?E) = ?cols"
    by (simp add: comp_def)
  have ne: "?cols \<noteq> []" using n by simp
  have read: "por_filas ?cols (max_len ?cols) ?n = P"
    by (rule por_filas_columnas[OF n max_len_columnas[OF n]])
  have dec: "descifrar_por_orden U ?C order1 rule dir = Inr P"
    unfolding descifrar_por_orden_def Let_def nC lenC geo sum.case cut vuelta
    using ne read by simp
  from enc azC lenC dec show ?thesis by blast
qed

text \<open>
  C1, amended. For every plaintext of capital letters, every valid read order and either
  direction, decoding the encoding gives the plaintext back under the natural rule; under
  the read rule it does so when the first \<open>N mod k\<close> columns of the read order are the
  columns \<open>1, \<dots>, N mod k\<close> in some order, in particular when \<open>k\<close> divides \<open>N\<close>. (The
  encoder has no remainder rule: it always fills the columns \<open>1, \<dots>, N mod k\<close> longer.)
\<close>

theorem ida_y_vuelta:
  assumes "respeta_AZ U" and "list_all es_AZ P" and "orden_valido order1"
    and "rule = ''read'' \<longrightarrow>
           set (take (length P mod length order1) order1) = {1..int (length P mod length order1)}"
  shows "\<exists>C. cifrar_por_orden_var U P order1 dir = Inr C
            \<and> descifrar_por_orden U C order1 rule dir = Inr P"
  using cifrar_descifrar_columnas[OF assms(3,1,2,4), of dir] by blast

theorem ida_y_vuelta_witness:
  "respeta_AZ unicodedata_ascii
   \<and> list_all es_AZ ''THEQUICKBROWNFOXJUMPS''
   \<and> orden_valido [3, 1, 2]
   \<and> set (take (length ''THEQUICKBROWNFOXJUMPS'' mod length [3, 1, 2::int]) [3, 1, 2])
       = {1..int (length ''THEQUICKBROWNFOXJUMPS'' mod length [3, 1, 2::int])}
   \<and> cifrar_por_orden_var unicodedata_ascii ''THEQUICKBROWNFOXJUMPS'' [3, 1, 2] ''down''
       = Inr ''EIBWOUSTQCRNXMHUKOFJP''
   \<and> descifrar_por_orden unicodedata_ascii ''EIBWOUSTQCRNXMHUKOFJP'' [3, 1, 2] ''read'' ''down''
       = Inr ''THEQUICKBROWNFOXJUMPS''"
proof -
  have a: "list_all es_AZ ''THEQUICKBROWNFOXJUMPS''" by code_simp
  have v: "orden_valido [3, 1, 2]" by (simp add: orden_valido_def upto_rec1)
  have g: "set (take (length ''THEQUICKBROWNFOXJUMPS'' mod length [3, 1, 2::int]) [3, 1, 2])
       = {1..int (length ''THEQUICKBROWNFOXJUMPS'' mod length [3, 1, 2::int])}" by simp
  have e: "cifrar_por_orden_var unicodedata_ascii ''THEQUICKBROWNFOXJUMPS'' [3, 1, 2] ''down''
       = Inr ''EIBWOUSTQCRNXMHUKOFJP''" by code_simp
  from ida_y_vuelta[OF respeta_AZ_ascii a v, of "''read''" "''down''"] g e
  have "descifrar_por_orden unicodedata_ascii ''EIBWOUSTQCRNXMHUKOFJP'' [3, 1, 2] ''read'' ''down''
       = Inr ''THEQUICKBROWNFOXJUMPS''" by auto
  with respeta_AZ_ascii a v g e show ?thesis by blast
qed

text \<open>
  C1 as stated fails under the read rule: with the order \<open>[2, 1]\<close> the plaintext \<open>ABC\<close>
  is encoded as \<open>BAC\<close>, the read rule gives the geometry \<open>[1, 2]\<close> instead of \<open>[2, 1]\<close>,
  and decoding returns \<open>CBA\<close>.
\<close>

theorem ida_y_vuelta_read_counterexample:
  "list_all es_AZ ''ABC'' \<and> orden_valido [2, 1]
   \<and> cifrar_por_orden_var unicodedata_ascii ''ABC'' [2, 1] ''down'' = Inr ''BAC''
   \<and> longitudes_columnas (length ''ABC'') 2 [1, 0] ''read'' = Inr [1, 2]
   \<and> descifrar_por_orden unicodedata_ascii ''BAC'' [2, 1] ''read'' ''down'' = Inr ''CBA''
   \<and> ''CBA'' \<noteq> ''ABC''"
  by code_simp

section \<open>Crib search: one candidate order\<close>




lemma length_aceptadas: "length (aceptadas U cipher order1 crib lr cd) \<le> 1"
  by (simp add: aceptadas_def split: sum.splits)













section \<open>Crib search: the sweep over the candidates\<close>












end
